theory Spec2Isabelle
  imports Main
begin

section \<open>Characters and the character classes of Python's \<open>re\<close>\<close>

text \<open>
  A Python \<open>str\<close> is a sequence of code points. The model reads a \<^typ>\<open>char\<close> as the code
  point of the same number, so a \<^typ>\<open>string\<close> is a Python string whose code points are below
  256. On that range the classes of \<open>re\<close> (for \<open>str\<close> patterns) are: \<open>\d\<close> the ten ASCII
  digits; \<open>\s\<close> the code points 9 to 13, 28 to 32, 133 and 160; \<open>\w\<close> the ASCII letters and
  digits, the underscore, and the Latin-1 letters and numerics 170, 178, 179, 181, 185, 186,
  188 to 190, 192 to 214, 216 to 246 and 248 to 255.
\<close>

definition code :: "char \<Rightarrow> nat" where
  "code c = of_char c"

definition is_digit :: "char \<Rightarrow> bool" where
  "is_digit c = (48 \<le> code c \<and> code c \<le> 57)"

definition is_space :: "char \<Rightarrow> bool" where
  "is_space c = ((9 \<le> code c \<and> code c \<le> 13) \<or> (28 \<le> code c \<and> code c \<le> 32)
                 \<or> code c = 133 \<or> code c = 160)"

definition is_word :: "char \<Rightarrow> bool" where
  "is_word c = (is_digit c \<or> (65 \<le> code c \<and> code c \<le> 90) \<or> code c = 95
                \<or> (97 \<le> code c \<and> code c \<le> 122)
                \<or> code c \<in> {170, 178, 179, 181, 185, 186}
                \<or> (188 \<le> code c \<and> code c \<le> 190)
                \<or> (192 \<le> code c \<and> code c \<le> 214)
                \<or> (216 \<le> code c \<and> code c \<le> 246)
                \<or> 248 \<le> code c)"

datatype cclass = Digit | Space

fun in_class :: "cclass \<Rightarrow> char \<Rightarrow> bool" where
  "in_class Digit c = is_digit c"
| "in_class Space c = is_space c"

section \<open>The fragment of \<open>re\<close> that the program uses\<close>

text \<open>
  The patterns of the program are sequences of: a literal character; a greedy repetition of
  one character class (\<open>\s*\<close>, \<open>\s+\<close>); a capturing group around such a repetition
  (\<open>(\d{5,7})\<close>, \<open>(\d{14,15})\<close>, \<open>(\d{19,22})\<close>); and the word boundary \<open>\b\<close>.
  \<open>Rep c lo hi\<close> is \<open>c{lo,hi}\<close>, with \<open>hi = None\<close> for no upper bound.
\<close>

datatype atom = Chr char | Rep cclass nat "nat option" | Cap cclass nat "nat option" | Wb

type_synonym pattern = "atom list"

definition lits :: "string \<Rightarrow> pattern" where
  "lits s = map Chr s"

text \<open>The state of a match attempt: the character before the position, and the text from it.\<close>

fun is_word_opt :: "char option \<Rightarrow> bool" where
  "is_word_opt None = False"
| "is_word_opt (Some c) = is_word c"

fun first_char :: "string \<Rightarrow> char option" where
  "first_char [] = None"
| "first_char (x # xs) = Some x"

definition at_boundary :: "char option \<Rightarrow> string \<Rightarrow> bool" where
  "at_boundary prev s = (is_word_opt prev \<noteq> is_word_opt (first_char s))"

fun prev_after :: "char option \<Rightarrow> string \<Rightarrow> nat \<Rightarrow> char option" where
  "prev_after prev s 0 = prev"
| "prev_after prev [] (Suc k) = prev"
| "prev_after prev (x # xs) (Suc k) = prev_after (Some x) xs k"

definition run_len :: "cclass \<Rightarrow> string \<Rightarrow> nat" where
  "run_len c s = length (takeWhile (in_class c) s)"

text \<open>
  A greedy repetition takes as many characters as it can and gives them back one at a time:
  the counts it tries, in the order it tries them.
\<close>

definition greedy_counts :: "cclass \<Rightarrow> nat \<Rightarrow> nat option \<Rightarrow> string \<Rightarrow> nat list" where
  "greedy_counts c lo hi s =
     (let n = run_len c s; top = (case hi of None \<Rightarrow> n | Some h \<Rightarrow> min h n)
      in rev [lo ..< Suc top])"

fun first_some :: "'a option list \<Rightarrow> 'a option" where
  "first_some [] = None"
| "first_some (None # xs) = first_some xs"
| "first_some (Some x # xs) = Some x"

text \<open>
  \<open>match_here p prev s\<close> is the backtracking matcher anchored at the current position: the
  groups captured, and the position after the match.
\<close>

fun match_here :: "pattern \<Rightarrow> char option \<Rightarrow> string \<Rightarrow> (string list \<times> char option \<times> string) option" where
  "match_here [] prev s = Some ([], prev, s)"
| "match_here (Chr c # p) prev s =
     (case s of [] \<Rightarrow> None
      | x # xs \<Rightarrow> if x = c then match_here p (Some x) xs else None)"
| "match_here (Wb # p) prev s =
     (if at_boundary prev s then match_here p prev s else None)"
| "match_here (Rep c lo hi # p) prev s =
     first_some (map (\<lambda>k. match_here p (prev_after prev s k) (drop k s))
                     (greedy_counts c lo hi s))"
| "match_here (Cap c lo hi # p) prev s =
     first_some (map (\<lambda>k. map_option (\<lambda>(caps, r). (take k s # caps, r))
                                      (match_here p (prev_after prev s k) (drop k s)))
                     (greedy_counts c lo hi s))"

text \<open>\<open>re.search\<close>: the leftmost position where the pattern matches, with its groups.\<close>

fun re_search_from :: "pattern \<Rightarrow> char option \<Rightarrow> string \<Rightarrow> (nat \<times> string list) option" where
  "re_search_from p prev [] = map_option (\<lambda>(caps, r). (0, caps)) (match_here p prev [])"
| "re_search_from p prev (x # xs) =
     (case match_here p prev (x # xs) of
        Some (caps, r) \<Rightarrow> Some (0, caps)
      | None \<Rightarrow> map_option (\<lambda>(i, caps). (Suc i, caps)) (re_search_from p (Some x) xs))"

definition re_search :: "pattern \<Rightarrow> string \<Rightarrow> (nat \<times> string list) option" where
  "re_search p s = re_search_from p None s"

text \<open>
  \<open>re.findall\<close>: the matches from left to right, each search starting where the last match
  ended. A match that consumed nothing is recorded and the scan moves one character on.
\<close>

function findall_from :: "pattern \<Rightarrow> char option \<Rightarrow> string \<Rightarrow> string list list" where
  "findall_from p prev s =
     (case match_here p prev s of
        Some (caps, prev', rest) \<Rightarrow>
          (if length rest < length s then caps # findall_from p prev' rest
           else (case s of [] \<Rightarrow> [caps] | x # xs \<Rightarrow> caps # findall_from p (Some x) xs))
      | None \<Rightarrow> (case s of [] \<Rightarrow> [] | x # xs \<Rightarrow> findall_from p (Some x) xs))"
  by pat_completeness auto
termination
  by (relation "measure (\<lambda>(p, prev, s). length s)") auto

declare findall_from.simps [simp del]

definition findall :: "pattern \<Rightarrow> string \<Rightarrow> string list list" where
  "findall p s = findall_from p None s"

section \<open>Step 2: serial numbers from the internal notes\<close>

text \<open>The pattern \<open>\b(\d{5,7})\b\<close>.\<close>

definition serial_pattern :: pattern where
  "serial_pattern = [Wb, Cap Digit 5 (Some 7), Wb]"

text \<open>With one group in the pattern, \<open>re.findall\<close> returns the list of that group's texts.\<close>

fun group1 :: "string list \<Rightarrow> string" where
  "group1 [] = []"
| "group1 (g # gs) = g"

definition extract_serial_numbers :: "string \<Rightarrow> string list" where
  "extract_serial_numbers internal_notes =
     (if internal_notes = [] then []
      else map group1 (findall serial_pattern internal_notes))"

text \<open>
  An order as \<open>parse_orders\<close> reads it: every field is read with \<open>.get\<close>, so each may be
  absent. An absent or empty \<open>internalNotes\<close> is the empty text (\<open>or ""\<close>).
\<close>

record line_item =
  item_sku :: "string option"

record order =
  orderNumber :: "string option"
  internalNotes :: "string option"
  items :: "line_item list option"

record enrichment =
  sku :: string
  serial :: string
  imei :: string
  iccid :: string
  sim_provider :: string
  retailer :: string
  status :: string
  order_number :: string
  raw_notes :: string

fun get_or :: "'a option \<Rightarrow> 'a \<Rightarrow> 'a" where
  "get_or None d = d"
| "get_or (Some v) d = v"

text \<open>\<open>sep.join(xs)\<close>.\<close>

fun join :: "string \<Rightarrow> string list \<Rightarrow> string" where
  "join sep [] = []"
| "join sep [x] = x"
| "join sep (x # y # ys) = x @ sep @ join sep (y # ys)"

definition NOT_FOUND :: string where
  "NOT_FOUND = ''NOT FOUND''"

definition notes_of :: "order \<Rightarrow> string" where
  "notes_of ord = get_or (internalNotes ord) []"

definition skus_of :: "order \<Rightarrow> string list" where
  "skus_of ord = map (\<lambda>it. get_or (item_sku it) []) (get_or (items ord) [])"

definition sentinel_record :: "order \<Rightarrow> enrichment" where
  "sentinel_record ord =
     \<lparr>sku = join '', '' (skus_of ord), serial = NOT_FOUND, imei = [], iccid = [],
      sim_provider = [], retailer = ''shopify'', status = ''unassigned'',
      order_number = get_or (orderNumber ord) [], raw_notes = take 200 (notes_of ord)\<rparr>"

text \<open>\<open>skus[i] if i < len(skus) else (skus[0] if skus else "")\<close>.\<close>

definition sku_at :: "string list \<Rightarrow> nat \<Rightarrow> string" where
  "sku_at skus i =
     (if i < length skus then skus ! i else (case skus of [] \<Rightarrow> [] | s # _ \<Rightarrow> s))"

definition serial_record :: "order \<Rightarrow> nat \<times> string \<Rightarrow> enrichment" where
  "serial_record ord = (\<lambda>(i, sn).
     \<lparr>sku = sku_at (skus_of ord) i, serial = sn, imei = [], iccid = [],
      sim_provider = [], retailer = ''shopify'', status = ''unassigned'',
      order_number = get_or (orderNumber ord) [], raw_notes = []\<rparr>)"

text \<open>One pass of the loop body of \<open>parse_orders\<close>: the records it appends for one order.\<close>

definition order_records :: "order \<Rightarrow> enrichment list" where
  "order_records ord =
     (let serials = extract_serial_numbers (notes_of ord)
      in if serials = [] then [sentinel_record ord]
         else map (serial_record ord) (enumerate 0 serials))"

fun parse_orders_loop :: "enrichment list \<Rightarrow> order list \<Rightarrow> enrichment list" where
  "parse_orders_loop records [] = records"
| "parse_orders_loop records (ord # orders) =
     parse_orders_loop (records @ order_records ord) orders"

definition parse_orders :: "order list \<Rightarrow> enrichment list" where
  "parse_orders orders = parse_orders_loop [] orders"


text \<open>
  Two readings of what \<open>extract_serial_numbers\<close> returns, for comparison with the code.
  \<open>runs P s\<close> are the maximal runs of characters of \<open>s\<close> that satisfy \<open>P\<close>, from left to
  right. \<open>claimed_serials\<close> is the reading "digit runs of 5 to 7 digits, bounded by
  non-digits or the edge of the text": every maximal digit run of that length.
  \<open>token_serials\<close> reads the boundary as \<open>\b\<close> does: a maximal run of word characters
  (letters, digits, underscore) that is 5 to 7 characters long and all digits.
\<close>

fun runs_acc :: "(char \<Rightarrow> bool) \<Rightarrow> string \<Rightarrow> string \<Rightarrow> string list" where
  "runs_acc P cur [] = (if cur = [] then [] else [cur])"
| "runs_acc P cur (x # xs) =
     (if P x then runs_acc P (cur @ [x]) xs
      else (if cur = [] then [] else [cur]) @ runs_acc P [] xs)"

definition runs :: "(char \<Rightarrow> bool) \<Rightarrow> string \<Rightarrow> string list" where
  "runs P s = runs_acc P [] s"

definition serial_length :: "string \<Rightarrow> bool" where
  "serial_length r = (5 \<le> length r \<and> length r \<le> 7)"

definition claimed_serials :: "string \<Rightarrow> string list" where
  "claimed_serials s = filter serial_length (runs is_digit s)"

definition is_serial_token :: "string \<Rightarrow> bool" where
  "is_serial_token w = (list_all is_digit w \<and> serial_length w)"

definition token_serials :: "string \<Rightarrow> string list" where
  "token_serials s = filter is_serial_token (runs is_word s)"

text \<open>Two orders used as examples: one with two serials in its notes, one without notes.\<close>

definition order_two_serials :: order where
  "order_two_serials =
     \<lparr>orderNumber = Some ''1001'', internalNotes = Some ''263384\<newline>274341'',
      items = Some [\<lparr>item_sku = Some ''A''\<rparr>, \<lparr>item_sku = Some ''B''\<rparr>]\<rparr>"



section \<open>Step 1: the ShipStation client\<close>

text \<open>
  What \<open>session.get\<close> gives for one attempt: a response, of which \<open>_get\<close> reads the status
  code, the \<open>Retry-After\<close> header (absent, or a number of seconds) and the body (\<open>None\<close>
  when it is not JSON, so that \<open>resp.json()\<close> raises); or no response at all, when the
  connection fails and \<open>session.get\<close> raises. \<open>raise_for_status\<close> raises for the status
  codes 400 to 599.
\<close>

datatype 'j reply = Response nat "nat option" "'j option" | ConnectionFailed

datatype fetch_error = HTTPError nat | JSONDecodeError | ConnectionError | RateLimitExceeded

text \<open>
  \<open>_get\<close>: the loop over \<open>range(5)\<close>. \<open>srv attempt\<close> is the reply to that attempt of the
  request. The result comes with the number of requests sent and the waits slept, in order.
\<close>

fun get_loop :: "(nat \<Rightarrow> 'j reply) \<Rightarrow> nat list \<Rightarrow> nat \<Rightarrow> nat list
                 \<Rightarrow> (fetch_error + 'j) \<times> nat \<times> nat list" where
  "get_loop srv [] sent waits = (Inl RateLimitExceeded, sent, waits)"
| "get_loop srv (attempt # rest) sent waits =
     (case srv attempt of
        ConnectionFailed \<Rightarrow> (Inl ConnectionError, Suc sent, waits)
      | Response status_code retry_after body \<Rightarrow>
          if status_code = 429
          then get_loop srv rest (Suc sent) (waits @ [get_or retry_after 30])
          else if 400 \<le> status_code \<and> status_code < 600
          then (Inl (HTTPError status_code), Suc sent, waits)
          else (case body of
                  None \<Rightarrow> (Inl JSONDecodeError, Suc sent, waits)
                | Some j \<Rightarrow> (Inr j, Suc sent, waits)))"

definition shipstation_get :: "(nat \<Rightarrow> 'j reply) \<Rightarrow> (fetch_error + 'j) \<times> nat \<times> nat list" where
  "shipstation_get srv = get_loop srv [0 ..< 5] 0 []"

text \<open>
  The JSON of the two endpoints, as \<open>get_shipped_orders\<close> reads it: a page of shipments
  with its \<open>shipments\<close> (default empty) and its \<open>pages\<close> (default 1), a shipment with its
  \<open>orderId\<close>; the detail of an order is an \<^typ>\<open>order\<close>.
\<close>

record shipment =
  orderId :: "nat option"

record shipments_page =
  shipments :: "shipment list option"
  pages :: "int option"

text \<open>
  The page loop. It has no bound of its own: against an endpoint that reports ever more
  pages it runs forever, which is the value \<open>None\<close>. The result comes with the page numbers
  requested, in order.
\<close>

partial_function (option) shipments_loop ::
  "(nat \<Rightarrow> nat \<Rightarrow> shipments_page reply) \<Rightarrow> nat \<Rightarrow> shipment list \<Rightarrow> nat list
   \<Rightarrow> ((fetch_error + shipment list) \<times> nat list) option" where
  "shipments_loop srv page all_shipments requested =
     (case fst (shipstation_get (srv page)) of
        Inl e \<Rightarrow> Some (Inl e, requested @ [page])
      | Inr data \<Rightarrow>
          (if int page \<ge> get_or (pages data) 1
           then Some (Inr (all_shipments @ get_or (shipments data) []), requested @ [page])
           else shipments_loop srv (page + 1) (all_shipments @ get_or (shipments data) [])
                               (requested @ [page])))"

declare shipments_loop.simps [code]

text \<open>
  The order IDs of the shipments that have one (\<open>if s.get("orderId")\<close>: present and not
  0), without repetitions. The source takes them through a \<open>set\<close>, the iteration order of
  which Python does not specify; \<open>remdups\<close> is one such order.
\<close>

definition order_ids_of :: "shipment list \<Rightarrow> nat list" where
  "order_ids_of all_shipments =
     remdups (map (\<lambda>s. get_or (orderId s) 0)
                  (filter (\<lambda>s. get_or (orderId s) 0 \<noteq> 0) all_shipments))"

text \<open>
  The loop over the order IDs: the orders fetched, the warnings logged (the ID and the
  error) and the IDs requested, each in order.
\<close>

fun fetch_orders :: "(nat \<Rightarrow> nat \<Rightarrow> order reply) \<Rightarrow> nat list \<Rightarrow> order list
                     \<Rightarrow> (nat \<times> fetch_error) list \<Rightarrow> nat list
                     \<Rightarrow> order list \<times> (nat \<times> fetch_error) list \<times> nat list" where
  "fetch_orders srv [] all_orders warnings requested = (all_orders, warnings, requested)"
| "fetch_orders srv (oid # oids) all_orders warnings requested =
     (case fst (shipstation_get (srv oid)) of
        Inr ord \<Rightarrow> fetch_orders srv oids (all_orders @ [ord]) warnings (requested @ [oid])
      | Inl e \<Rightarrow> fetch_orders srv oids all_orders (warnings @ [(oid, e)]) (requested @ [oid]))"

text \<open>
  \<open>get_shipped_orders\<close>: the orders, or the error of a failed page request, which nothing
  catches.
\<close>

definition get_shipped_orders ::
  "(nat \<Rightarrow> nat \<Rightarrow> shipments_page reply) \<Rightarrow> (nat \<Rightarrow> nat \<Rightarrow> order reply)
   \<Rightarrow> (fetch_error + order list) option" where
  "get_shipped_orders page_srv order_srv =
     (case shipments_loop page_srv 1 [] [] of
        None \<Rightarrow> None
      | Some (Inl e, requested) \<Rightarrow> Some (Inl e)
      | Some (Inr all_shipments, requested) \<Rightarrow>
          if all_shipments = [] then Some (Inr [])
          else Some (Inr (fst (fetch_orders order_srv (order_ids_of all_shipments) [] [] []))))"





text \<open>What one order ID contributes to the result of \<open>fetch_orders\<close>.\<close>

definition fetched_order :: "(nat \<Rightarrow> nat \<Rightarrow> order reply) \<Rightarrow> nat \<Rightarrow> order option" where
  "fetched_order srv oid =
     (case fst (shipstation_get (srv oid)) of Inr ord \<Rightarrow> Some ord | Inl e \<Rightarrow> None)"

definition fetch_warning :: "(nat \<Rightarrow> nat \<Rightarrow> order reply) \<Rightarrow> nat \<Rightarrow> (nat \<times> fetch_error) option" where
  "fetch_warning srv oid =
     (case fst (shipstation_get (srv oid)) of Inr ord \<Rightarrow> None | Inl e \<Rightarrow> Some (oid, e))"

text \<open>The shipments a page holds.\<close>

definition page_items :: "shipments_page \<Rightarrow> shipment list" where
  "page_items data = get_or (shipments data) []"

text \<open>
  Example endpoints. Every page of \<open>three_pages\<close> reports a page count of 3; the first
  holds two shipments, the second none, the third one. \<open>three_pages_empty_last\<close> is the
  same with an empty third page. \<open>one_order_fails\<close> answers 500 for order 11 and returns
  every other order.
\<close>

definition three_pages_data :: "nat \<Rightarrow> shipments_page" where
  "three_pages_data p =
     \<lparr>shipments = Some (if p = 1 then [\<lparr>orderId = Some 11\<rparr>, \<lparr>orderId = Some 12\<rparr>]
                        else if p = 3 then [\<lparr>orderId = Some 11\<rparr>] else []),
      pages = Some 3\<rparr>"

definition three_pages :: "nat \<Rightarrow> nat \<Rightarrow> shipments_page reply" where
  "three_pages p attempt = Response 200 None (Some (three_pages_data p))"

definition three_pages_empty_last_data :: "nat \<Rightarrow> shipments_page" where
  "three_pages_empty_last_data p =
     \<lparr>shipments = Some (if p = 1 then [\<lparr>orderId = Some 11\<rparr>, \<lparr>orderId = Some 12\<rparr>]
                        else if p = 2 then [\<lparr>orderId = Some 13\<rparr>] else []),
      pages = Some 3\<rparr>"

definition three_pages_empty_last :: "nat \<Rightarrow> nat \<Rightarrow> shipments_page reply" where
  "three_pages_empty_last p attempt = Response 200 None (Some (three_pages_empty_last_data p))"

definition order_numbered :: "nat \<Rightarrow> order" where
  "order_numbered oid =
     \<lparr>orderNumber = Some (if oid = 12 then ''1012'' else ''1000''),
      internalNotes = Some ''263384'', items = Some [\<lparr>item_sku = Some ''A''\<rparr>]\<rparr>"

definition one_order_fails :: "nat \<Rightarrow> nat \<Rightarrow> order reply" where
  "one_order_fails oid attempt =
     (if oid = 11 then Response 500 None None
      else Response 200 None (Some (order_numbered oid)))"

section \<open>Step 3: the device console\<close>

text \<open>
  The four patterns of \<open>lookup_serial\<close>. \<open>re.escape(serial)\<close> makes the serial match as
  the literal text it is.
\<close>

definition primary_pattern :: "string \<Rightarrow> pattern" where
  "primary_pattern serial_no =
     lits ''Serial:'' @ [Rep Space 0 None] @ lits serial_no @ [Rep Space 1 None]
     @ lits ''IMEI:'' @ [Rep Space 0 None, Cap Digit 14 (Some 15), Rep Space 1 None]
     @ lits ''ICCID:'' @ [Rep Space 0 None, Cap Digit 19 (Some 22)]"

definition serial_token_pattern :: "string \<Rightarrow> pattern" where
  "serial_token_pattern serial_no = lits ''Serial:'' @ [Rep Space 0 None] @ lits serial_no"

definition imei_pattern :: pattern where
  "imei_pattern = lits ''IMEI:'' @ [Rep Space 0 None, Cap Digit 14 (Some 15)]"

definition iccid_pattern :: pattern where
  "iccid_pattern = lits ''ICCID:'' @ [Rep Space 0 None, Cap Digit 19 (Some 22)]"

fun group2 :: "string list \<Rightarrow> string" where
  "group2 [] = []"
| "group2 (g # gs) = group1 gs"

text \<open>The dictionary \<open>lookup_serial\<close> returns.\<close>

record gpx_data =
  gpx_imei :: string
  gpx_iccid :: string
  gpx_sim_provider :: string

definition no_data :: gpx_data where
  "no_data = \<lparr>gpx_imei = [], gpx_iccid = [], gpx_sim_provider = []\<rparr>"

text \<open>
  What a run does to the world outside, in the order it does it: the session of the
  console started (\<open>scraper.start()\<close> called) and closed (\<open>scraper.close()\<close> called), a
  serial searched, a screenshot saved under a name, the payload written to the temporary
  file, copied to the working directory, uploaded to Drive, uploaded to the console, and
  the temporary file removed. The payload is the table handed to \<open>csv.writer\<close>: rows of
  cells.
\<close>

type_synonym table = "string list list"

datatype event =
    SessionStart
  | SessionClose
  | Search string
  | Screenshot string
  | WriteTempCsv table
  | CopyLocal
  | DriveUpload table
  | GpxUpload table
  | Unlink

text \<open>
  The extraction of \<open>lookup_serial\<close>, from the text of the result page on: the primary
  pattern, else the serial alone and the two patterns on the 300 characters from where
  it starts. With the data come the screenshots taken.
\<close>

definition extract_fields :: "string \<Rightarrow> string \<Rightarrow> gpx_data \<times> event list" where
  "extract_fields serial_no page_text =
     (case re_search (primary_pattern serial_no) page_text of
        Some (start, caps) \<Rightarrow>
          (\<lparr>gpx_imei = group1 caps, gpx_iccid = group2 caps, gpx_sim_provider = []\<rparr>, [])
      | None \<Rightarrow>
          (case re_search (serial_token_pattern serial_no) page_text of
             Some (start, caps) \<Rightarrow>
               (let nearby = take 300 (drop start page_text);
                    imei_found = (case re_search imei_pattern nearby of
                                    Some (i, gs) \<Rightarrow> group1 gs | None \<Rightarrow> []);
                    iccid_found = (case re_search iccid_pattern nearby of
                                     Some (i, gs) \<Rightarrow> group1 gs | None \<Rightarrow> [])
                in (\<lparr>gpx_imei = imei_found, gpx_iccid = iccid_found, gpx_sim_provider = []\<rparr>,
                    if imei_found \<noteq> [] \<or> iccid_found \<noteq> [] then []
                    else [Screenshot (''gpx_search_'' @ serial_no)]))
           | None \<Rightarrow> (no_data, [Screenshot (''gpx_search_'' @ serial_no)])))"

text \<open>
  What one lookup meets. \<open>Settled text\<close>: the search goes through and the result page
  reads \<open>text\<close>. \<open>Broken\<close>: a step of the search raises; the handler saves its screenshot
  and the lookup returns the empty data. \<open>Crashed\<close>: a step raises and the handler's own
  screenshot raises too, so the exception leaves \<open>lookup_serial\<close> (\<open>None\<close>).
\<close>

datatype surface = Settled string | Broken | Crashed

fun lookup_serial :: "surface \<Rightarrow> string \<Rightarrow> gpx_data option \<times> event list" where
  "lookup_serial (Settled page_text) serial_no =
     (let (result, shots) = extract_fields serial_no page_text
      in (Some result, Search serial_no # shots))"
| "lookup_serial Broken serial_no =
     (Some no_data, [Search serial_no, Screenshot (''gpx_error_'' @ serial_no)])"
| "lookup_serial Crashed serial_no = (None, [Search serial_no])"

text \<open>
  The console of a run: whether \<open>start()\<close> (launch and login) goes through, and what the
  \<open>k\<close>-th lookup meets for its serial.
\<close>

record console =
  login_ok :: bool
  surface_of :: "nat \<Rightarrow> string \<Rightarrow> surface"

text \<open>
  \<open>enrich_with_gpx\<close>. \<open>to_lookup\<close> holds references to records of \<open>records\<close>, here their
  indices, and the loop writes through them. The result is the records, whether the
  scraper is returned (open), and the events.
\<close>

definition to_lookup_of :: "enrichment list \<Rightarrow> nat list" where
  "to_lookup_of records = filter (\<lambda>i. serial (records ! i) \<noteq> NOT_FOUND) [0 ..< length records]"

fun lookup_loop :: "console \<Rightarrow> nat \<Rightarrow> nat list \<Rightarrow> enrichment list \<Rightarrow> event list
                    \<Rightarrow> bool \<times> enrichment list \<times> event list" where
  "lookup_loop c k [] records trace = (True, records, trace)"
| "lookup_loop c k (i # refs) records trace =
     (case lookup_serial (surface_of c k (serial (records ! i))) (serial (records ! i)) of
        (None, evs) \<Rightarrow> (False, records, trace @ evs)
      | (Some gpx, evs) \<Rightarrow>
          lookup_loop c (Suc k) refs
            (records[i := (records ! i)\<lparr>imei := gpx_imei gpx, iccid := gpx_iccid gpx,
                                        sim_provider := gpx_sim_provider gpx,
                                        retailer := ''shopify''\<rparr>])
            (trace @ evs))"

definition enrich_with_gpx :: "console \<Rightarrow> enrichment list \<Rightarrow> enrichment list \<times> bool \<times> event list" where
  "enrich_with_gpx c records =
     (if to_lookup_of records = [] then (records, False, [])
      else if \<not> login_ok c then (records, False, [SessionStart, SessionClose])
      else (case lookup_loop c 0 (to_lookup_of records) records [SessionStart] of
              (True, records', trace) \<Rightarrow> (records', True, trace)
            | (False, records', trace) \<Rightarrow> (records', False, trace @ [SessionClose])))"

section \<open>Step 4 and the orchestrator\<close>

definition SHEET_HEADERS :: "string list" where
  "SHEET_HEADERS = [''SKU'', [], ''Serial'', ''IMEI'', ''ICCID'', [], ''SIM Provider'',
                    ''Retailer'', ''Status'']"

definition sheet_row :: "enrichment \<Rightarrow> string list" where
  "sheet_row r = [[], [], serial r, imei r, iccid r, [], sim_provider r, retailer r, status r]"

text \<open>The table \<open>create_and_populate_sheet\<close> writes, and the one \<open>run\<close> writes.\<close>

definition create_and_populate_sheet_rows :: "enrichment list \<Rightarrow> table" where
  "create_and_populate_sheet_rows records = SHEET_HEADERS # map sheet_row records"

definition run_rows :: "enrichment list \<Rightarrow> table" where
  "run_rows records = SHEET_HEADERS # map sheet_row records"

text \<open>
  The world of a run: the two endpoints of ShipStation, the console, and whether each
  step that can fail goes through: writing the temporary file, copying it in a dry run,
  the Drive step (\<open>get_google_services\<close> and \<open>create_and_populate_sheet\<close>), and the upload
  to the console.
\<close>

record world =
  page_srv :: "nat \<Rightarrow> nat \<Rightarrow> shipments_page reply"
  order_srv :: "nat \<Rightarrow> nat \<Rightarrow> order reply"
  gpx :: console
  tempfile_ok :: bool
  copy_ok :: bool
  drive_ok :: bool
  gpx_upload_ok :: bool

datatype run_error = FetchError fetch_error | TempFileError | CopyError | DriveError

datatype outcome = Returned | Raised run_error

text \<open>The two places where \<open>run\<close> closes the scraper: \<open>if gpx_scraper: gpx_scraper.close()\<close>.\<close>

definition close_if :: "bool \<Rightarrow> event list" where
  "close_if scraper = (if scraper then [SessionClose] else [])"

text \<open>
  \<open>run\<close> from the records on. The statements between \<open>enrich_with_gpx\<close> and the \<open>try\<close>,
  and the dry-run branch, stand outside every \<open>try\<close>: an exception there leaves \<open>run\<close> at
  once. In the live branch the \<open>finally\<close> closes the scraper and removes the file whether
  the Drive step raised or not; a failed upload to the console saves its screenshot and is
  caught and logged.
\<close>

definition run_records :: "world \<Rightarrow> bool \<Rightarrow> enrichment list \<Rightarrow> outcome \<times> event list" where
  "run_records w dry_run records0 =
     (let (records, scraper, trace) = enrich_with_gpx (gpx w) records0
      in if \<not> tempfile_ok w then (Raised TempFileError, trace)
         else if dry_run
         then (if \<not> copy_ok w then (Raised CopyError, trace @ [WriteTempCsv (run_rows records)])
               else (Returned, trace @ [WriteTempCsv (run_rows records), CopyLocal]
                               @ close_if scraper @ [Unlink]))
         else (if \<not> drive_ok w
               then (Raised DriveError, trace @ [WriteTempCsv (run_rows records)]
                                        @ close_if scraper @ [Unlink])
               else (Returned, trace @ [WriteTempCsv (run_rows records),
                                        DriveUpload (create_and_populate_sheet_rows records)]
                               @ (if scraper
                                  then GpxUpload (run_rows records)
                                       # (if gpx_upload_ok w then []
                                          else [Screenshot ''gpx_upload_error''])
                                  else [])
                               @ close_if scraper @ [Unlink])))"

definition run :: "world \<Rightarrow> bool \<Rightarrow> (outcome \<times> event list) option" where
  "run w dry_run =
     (case get_shipped_orders (page_srv w) (order_srv w) of
        None \<Rightarrow> None
      | Some (Inl e) \<Rightarrow> Some (Raised (FetchError e), [])
      | Some (Inr orders) \<Rightarrow>
          if orders = [] then Some (Returned, [])
          else if parse_orders orders = [] then Some (Returned, [])
          else Some (run_records w dry_run (parse_orders orders)))"

text \<open>The payload an event carries, if it carries one.\<close>

fun payload_of :: "event \<Rightarrow> table option" where
  "payload_of (WriteTempCsv t) = Some t"
| "payload_of (DriveUpload t) = Some t"
| "payload_of (GpxUpload t) = Some t"
| "payload_of SessionStart = None"
| "payload_of SessionClose = None"
| "payload_of (Search s) = None"
| "payload_of (Screenshot s) = None"
| "payload_of CopyLocal = None"
| "payload_of Unlink = None"

definition payloads :: "event list \<Rightarrow> table list" where
  "payloads trace = List.map_filter payload_of trace"

text \<open>
  Example worlds. ShipStation has one page with one shipment of order 12, the notes of
  which hold the serial 263384. In \<open>login_fails\<close> the console refuses the login and every
  other step would go through. In \<open>copy_fails\<close> the console works and shows the device of
  the serial, and the copy of the dry run fails.
\<close>

definition one_page :: "nat \<Rightarrow> nat \<Rightarrow> shipments_page reply" where
  "one_page p attempt =
     Response 200 None (Some \<lparr>shipments = Some [\<lparr>orderId = Some 12\<rparr>], pages = Some 1\<rparr>)"

definition device_page :: string where
  "device_page = ''ID: 337927 Serial: 263384 IMEI: 862601768000477 ICCID: 8901176000000000001''"

definition login_fails :: world where
  "login_fails =
     \<lparr>page_srv = one_page, order_srv = one_order_fails,
      gpx = \<lparr>login_ok = False, surface_of = (\<lambda>k s. Settled device_page)\<rparr>,
      tempfile_ok = True, copy_ok = True, drive_ok = True, gpx_upload_ok = True\<rparr>"

definition copy_fails :: world where
  "copy_fails =
     \<lparr>page_srv = one_page, order_srv = one_order_fails,
      gpx = \<lparr>login_ok = True, surface_of = (\<lambda>k s. Settled device_page)\<rparr>,
      tempfile_ok = True, copy_ok = False, drive_ok = True, gpx_upload_ok = True\<rparr>"

definition all_fine :: world where
  "all_fine =
     \<lparr>page_srv = one_page, order_srv = one_order_fails,
      gpx = \<lparr>login_ok = True, surface_of = (\<lambda>k s. Settled device_page)\<rparr>,
      tempfile_ok = True, copy_ok = True, drive_ok = True, gpx_upload_ok = True\<rparr>"

text \<open>The tables and the trace of the example worlds.\<close>

definition plain_rows :: table where
  "plain_rows =
     [SHEET_HEADERS, [[], [], ''263384'', [], [], [], [], ''shopify'', ''unassigned'']]"

definition enriched_rows :: table where
  "enriched_rows =
     [SHEET_HEADERS,
      [[], [], ''263384'', ''862601768000477'', ''8901176000000000001'', [], [],
       ''shopify'', ''unassigned'']]"

definition all_fine_trace :: "event list" where
  "all_fine_trace =
     [SessionStart, Search ''263384'', WriteTempCsv enriched_rows, DriveUpload enriched_rows,
      GpxUpload enriched_rows, SessionClose, Unlink]"

section \<open>What it means for a pattern to occur in a text\<close>














section \<open>Properties of step 2\<close>

lemma parse_orders_loop_concat:
  "parse_orders_loop records orders = records @ concat (map order_records orders)"
  by (induction orders arbitrary: records) simp_all




section \<open>What \<open>extract_serial_numbers\<close> returns\<close>

lemma first_some_map_None:
  "(\<And>k. k \<in> set ks \<Longrightarrow> f k = None) \<Longrightarrow> first_some (map f ks) = None"
  by (induction ks) simp_all

lemma is_digit_is_word: "is_digit c \<Longrightarrow> is_word c"
  by (simp add: is_word_def)

lemma run_len_nth: "k < run_len c s \<Longrightarrow> in_class c (s ! k)"
  unfolding run_len_def by (metis nth_mem set_takeWhileD takeWhile_nth)

lemma run_len_le: "run_len c s \<le> length s"
  unfolding run_len_def by (rule length_takeWhile_le)

lemma first_char_drop: "k < length s \<Longrightarrow> first_char (drop k s) = Some (s ! k)"
  by (induction s arbitrary: k) (auto simp: less_Suc_eq_0_disj)

lemma prev_after_nth: "0 < k \<Longrightarrow> k \<le> length s \<Longrightarrow> prev_after prev s k = Some (s ! (k - 1))"
proof (induction prev s k rule: prev_after.induct)
  case (3 prev x xs k)
  then show ?case by (cases k) simp_all
qed simp_all

lemma take_run_len: "take (run_len c s) s = takeWhile (in_class c) s"
  unfolding run_len_def by (metis takeWhile_eq_take)

lemma drop_run_len: "drop (run_len c s) s = dropWhile (in_class c) s"
  unfolding run_len_def by (metis dropWhile_eq_drop)

lemma match_serial:
  "match_here serial_pattern prev s =
     (if \<not> is_word_opt prev \<and> 5 \<le> run_len Digit s \<and> run_len Digit s \<le> 7
         \<and> \<not> is_word_opt (first_char (drop (run_len Digit s) s))
      then Some ([take (run_len Digit s) s], prev_after prev s (run_len Digit s),
                 drop (run_len Digit s) s)
      else None)"
proof -
  define d where "d = run_len Digit s"
  define g where "g = (\<lambda>k. map_option (\<lambda>(caps, r). (take k s # caps, r))
                              (match_here [Wb] (prev_after prev s k) (drop k s)))"
  have inner: "g k = None" if "5 \<le> k" "k < d" for k
  proof -
    have "is_digit (s ! k)" using run_len_nth[of k Digit s] that by (simp add: d_def)
    moreover have "first_char (drop k s) = Some (s ! k)"
      using that run_len_le[of Digit s] by (simp add: first_char_drop d_def)
    moreover have "is_digit (s ! (k - 1))"
      using run_len_nth[of "k - 1" Digit s] that by (simp add: d_def)
    moreover have "prev_after prev s k = Some (s ! (k - 1))"
      using that run_len_le[of Digit s] by (simp add: prev_after_nth d_def)
    ultimately show ?thesis
      by (simp add: g_def at_boundary_def is_digit_is_word)
  qed
  have top: "g d = (if \<not> is_word_opt (first_char (drop d s))
                    then Some ([take d s], prev_after prev s d, drop d s) else None)"
    if "5 \<le> d"
  proof -
    have "is_digit (s ! (d - 1))"
      using run_len_nth[of "d - 1" Digit s] that by (simp add: d_def)
    moreover have "prev_after prev s d = Some (s ! (d - 1))"
      using that run_len_le[of Digit s] by (simp add: prev_after_nth d_def)
    ultimately show ?thesis
      by (simp add: g_def at_boundary_def is_digit_is_word)
  qed
  have start: "is_word_opt (first_char s)" if "5 \<le> d"
  proof (cases s)
    case Nil
    then show ?thesis using that by (simp add: d_def run_len_def)
  next
    case (Cons x xs)
    then have "is_digit x" using run_len_nth[of 0 Digit s] that by (simp add: d_def)
    then show ?thesis using Cons by (simp add: is_digit_is_word)
  qed
  have unfold: "match_here serial_pattern prev s =
      (if at_boundary prev s then first_some (map g (greedy_counts Digit 5 (Some 7) s)) else None)"
    by (simp add: serial_pattern_def g_def)
  consider "d < 5" | "5 \<le> d" "d \<le> 7" | "7 < d" by linarith
  then show ?thesis
  proof cases
    case 1
    then have "greedy_counts Digit 5 (Some 7) s = []"
      by (simp add: greedy_counts_def d_def[symmetric] Let_def)
    then show ?thesis using 1 unfold by (simp add: d_def)
  next
    case 2
    then have counts: "greedy_counts Digit 5 (Some 7) s = d # rev [5 ..< d]"
      by (simp add: greedy_counts_def d_def[symmetric] Let_def min_def)
    have "first_some (map g (rev [5 ..< d])) = None"
      by (rule first_some_map_None) (simp add: inner)
    then have "first_some (map g (greedy_counts Digit 5 (Some 7) s)) = g d"
      unfolding counts by (cases "g d") simp_all
    then show ?thesis
      using 2 unfold top[OF 2(1)] start[OF 2(1)]
      by (simp add: d_def[symmetric] at_boundary_def)
  next
    case 3
    then have "set (greedy_counts Digit 5 (Some 7) s) \<subseteq> {5 ..< d}"
      by (auto simp: greedy_counts_def d_def[symmetric] Let_def min_def)
    then have "first_some (map g (greedy_counts Digit 5 (Some 7) s)) = None"
      by (intro first_some_map_None inner) auto
    then show ?thesis using 3 unfold by (simp add: d_def[symmetric])
  qed
qed


lemma runs_acc_flush:
  "s = [] \<or> \<not> P (hd s) \<Longrightarrow>
   runs_acc P cur s = (if cur = [] then [] else [cur]) @ runs_acc P [] s"
  by (cases s) auto

lemma runs_acc_takeWhile:
  "runs_acc P cur s = runs_acc P (cur @ takeWhile P s) (dropWhile P s)"
  by (induction s arbitrary: cur) simp_all

lemma dropWhile_head: "dropWhile P s = [] \<or> \<not> P (hd (dropWhile P s))"
  by (metis hd_dropWhile)

lemma runs_split:
  "runs P s = (if takeWhile P s = [] then [] else [takeWhile P s]) @ runs P (dropWhile P s)"
proof -
  have "runs_acc P [] s = runs_acc P ([] @ takeWhile P s) (dropWhile P s)"
    by (rule runs_acc_takeWhile)
  also have "\<dots> = (if takeWhile P s = [] then [] else [takeWhile P s]) @ runs_acc P [] (dropWhile P s)"
    using runs_acc_flush[of "dropWhile P s" P "takeWhile P s"] dropWhile_head[of P s] by simp
  finally show ?thesis by (simp add: runs_def)
qed

lemma runs_skip: "\<not> P x \<Longrightarrow> runs P (x # xs) = runs P xs"
  by (simp add: runs_def)


lemma findall_serial_step:
  "findall_from serial_pattern prev s =
     (case match_here serial_pattern prev s of
        Some (caps, prev', rest) \<Rightarrow> caps # findall_from serial_pattern prev' rest
      | None \<Rightarrow> (case s of [] \<Rightarrow> [] | x # xs \<Rightarrow> findall_from serial_pattern (Some x) xs))"
proof (cases "match_here serial_pattern prev s")
  case None
  then show ?thesis by (subst findall_from.simps) simp
next
  case (Some m)
  then obtain caps prev' rest where m: "match_here serial_pattern prev s = Some (caps, prev', rest)"
    by (cases m) auto
  then have "5 \<le> run_len Digit s" "rest = drop (run_len Digit s) s"
    by (auto simp: match_serial split: if_splits)
  then have "length rest < length s"
    using run_len_le[of Digit s] by simp
  then show ?thesis using m by (subst findall_from.simps) simp
qed


lemma in_class_Digit: "in_class Digit = is_digit"
  by (rule ext) simp

lemma while_append:
  assumes "\<forall>x \<in> set a. P x" and "b = [] \<or> \<not> P (hd b)"
  shows "takeWhile P (a @ b) = a" and "dropWhile P (a @ b) = b"
proof -
  have "takeWhile P b = []" "dropWhile P b = b"
    using assms(2) by (cases b; simp)+
  then show "takeWhile P (a @ b) = a" "dropWhile P (a @ b) = b"
    using assms(1) by (simp_all add: takeWhile_append2 dropWhile_append2)
qed

lemma not_word_head: "(s = [] \<or> \<not> is_word (hd s)) = (\<not> is_word_opt (first_char s))"
  by (cases s) simp_all

lemma prev_after_takeWhile:
  assumes "takeWhile P s \<noteq> []"
  shows "\<exists>c. prev_after prev s (length (takeWhile P s)) = Some c \<and> P c"
proof -
  let ?w = "takeWhile P s"
  have pos: "0 < length ?w" using assms by simp
  have le: "length ?w \<le> length s" by (rule length_takeWhile_le)
  have "prev_after prev s (length ?w) = Some (s ! (length ?w - 1))"
    using pos le by (rule prev_after_nth)
  moreover have "s ! (length ?w - 1) = ?w ! (length ?w - 1)"
    using pos by (simp add: takeWhile_nth)
  moreover have "?w ! (length ?w - 1) \<in> set ?w"
    using pos by simp
  then have "P (?w ! (length ?w - 1))" by (rule set_takeWhileD[THEN conjunct2])
  ultimately show ?thesis by simp
qed

lemma match_serial':
  "match_here serial_pattern prev s =
     (if \<not> is_word_opt prev \<and> serial_length (takeWhile is_digit s)
         \<and> \<not> is_word_opt (first_char (dropWhile is_digit s))
      then Some ([takeWhile is_digit s], prev_after prev s (length (takeWhile is_digit s)),
                 dropWhile is_digit s)
      else None)"
  unfolding match_serial take_run_len drop_run_len
  by (simp add: run_len_def in_class_Digit serial_length_def)

lemma findall_serial_tokens:
  "map group1 (findall_from serial_pattern prev s) =
     filter is_serial_token (runs is_word (if is_word_opt prev then dropWhile is_word s else s))"
proof (induction "length s" arbitrary: s prev rule: less_induct)
  case less
  show ?case
  proof (cases s)
    case Nil
    then show ?thesis
      by (simp add: findall_serial_step match_serial' serial_length_def runs_def)
  next
    case (Cons x xs)
    have IH: "map group1 (findall_from serial_pattern (Some x) xs) =
         filter is_serial_token (runs is_word (if is_word x then dropWhile is_word xs else xs))"
      using less[of xs "Some x"] Cons by simp
    show ?thesis
    proof (cases "is_word_opt prev")
      case True
      then have "findall_from serial_pattern prev s = findall_from serial_pattern (Some x) xs"
        using Cons by (simp add: findall_serial_step match_serial')
      then show ?thesis using True IH Cons by (simp add: runs_skip)
    next
      case False
      show ?thesis
      proof (cases "is_word x")
        case nw: False
        then have "\<not> is_digit x" using is_digit_is_word by blast
        then have "match_here serial_pattern prev s = None"
          using Cons by (simp add: match_serial' serial_length_def)
        then have "findall_from serial_pattern prev s = findall_from serial_pattern (Some x) xs"
          using Cons by (simp add: findall_serial_step)
        then show ?thesis using False IH Cons nw by (simp add: runs_skip)
      next
        case w: True
        let ?w = "takeWhile is_word s" and ?r = "dropWhile is_word s"
        have wne: "?w \<noteq> []" using w Cons by simp
        have split: "s = ?w @ ?r" by simp
        have rhead: "?r = [] \<or> \<not> is_word (hd ?r)" by (rule dropWhile_head)
        have runs: "runs is_word s = ?w # runs is_word ?r"
          using runs_split[of is_word s] wne by simp
        show ?thesis
        proof (cases "is_serial_token ?w")
          case tok: True
          then have dig: "\<forall>c \<in> set ?w. is_digit c"
            by (simp add: is_serial_token_def list_all_iff)
          have rdig: "?r = [] \<or> \<not> is_digit (hd ?r)"
            using rhead is_digit_is_word by blast
          have tw: "takeWhile is_digit s = ?w" and dw: "dropWhile is_digit s = ?r"
            using while_append[OF dig rdig] by simp_all
          obtain c where c: "prev_after prev s (length ?w) = Some c" "is_word c"
            using prev_after_takeWhile[OF wne] by blast
          have nb: "\<not> is_word_opt (first_char ?r)"
            using rhead unfolding not_word_head .
          have m: "match_here serial_pattern prev s = Some ([?w], Some c, ?r)"
            using False tok nb c
            by (simp add: match_serial' tw dw is_serial_token_def)
          have "length ?r < length s"
            using wne by (metis split length_append length_greater_0_conv less_add_same_cancel2)
          then have "map group1 (findall_from serial_pattern (Some c) ?r) =
                filter is_serial_token (runs is_word (dropWhile is_word ?r))"
            using less[of ?r "Some c"] c by simp
          moreover have "dropWhile is_word ?r = ?r"
            using rhead by (cases ?r) simp_all
          ultimately show ?thesis
            using m tok False runs by (simp add: findall_serial_step)
        next
          case ntok: False
          have "match_here serial_pattern prev s = None"
          proof (rule ccontr)
            assume "match_here serial_pattern prev s \<noteq> None"
            then have len: "serial_length (takeWhile is_digit s)"
              and bnd: "\<not> is_word_opt (first_char (dropWhile is_digit s))"
              by (simp_all add: match_serial' split: if_splits)
            have "\<forall>c \<in> set (takeWhile is_digit s). is_word c"
              using set_takeWhileD is_digit_is_word by fastforce
            moreover have "dropWhile is_digit s = [] \<or> \<not> is_word (hd (dropWhile is_digit s))"
              using bnd unfolding not_word_head .
            ultimately have "takeWhile is_word (takeWhile is_digit s @ dropWhile is_digit s)
                   = takeWhile is_digit s"
              by (rule while_append(1))
            then have "?w = takeWhile is_digit s" by simp
            then have "is_serial_token ?w"
              using len set_takeWhileD by (fastforce simp: is_serial_token_def list_all_iff)
            then show False using ntok by simp
          qed
          then have "findall_from serial_pattern prev s = findall_from serial_pattern (Some x) xs"
            using Cons by (simp add: findall_serial_step)
          moreover have "dropWhile is_word xs = ?r" using w Cons by simp
          ultimately show ?thesis using IH w False runs ntok by simp
        qed
      qed
    qed
  qed
qed


text \<open>
  The claim as it is written fails where a digit run touches a letter or an underscore:
  in \<open>SN263384\<close> the run \<open>263384\<close> has six digits and a non-digit on its left, yet
  \<open>\b\<close> finds no boundary between \<open>N\<close> and \<open>2\<close>, and nothing is returned.
\<close>

theorem extract_serial_numbers_digit_boundary_counterexample:
  "extract_serial_numbers ''SN263384'' = []
   \<and> claimed_serials ''SN263384'' = [''263384'']"
  by code_simp

text \<open>
  Claim C2, amended. For every text, \<open>extract_serial_numbers\<close> returns exactly the maximal
  runs of word characters (letters, digits, underscore) that are all digits and 5 to 7
  characters long, in their order in the text and with repetitions kept. So a digit run
  inside a longer number is never returned: a text of twelve digits yields nothing.
\<close>

theorem extract_serial_numbers_tokens:
  "extract_serial_numbers s = token_serials s
   \<and> extract_serial_numbers ''123456789012'' = []
   \<and> extract_serial_numbers ''263384 263384'' = [''263384'', ''263384'']"
proof -
  have "extract_serial_numbers s = token_serials s"
    using findall_serial_tokens[of None s]
    by (simp add: extract_serial_numbers_def token_serials_def findall_def runs_def)
  moreover have "extract_serial_numbers ''123456789012'' = []"
    by code_simp
  moreover have "extract_serial_numbers ''263384 263384'' = [''263384'', ''263384'']"
    by code_simp
  ultimately show ?thesis by simp
qed

section \<open>The retry ceiling of \<open>_get\<close>\<close>









section \<open>Paging and the per-order fetches of \<open>get_shipped_orders\<close>\<close>

lemma fetch_orders_acc:
  "fetch_orders srv ids all_orders warnings requested =
     (all_orders @ List.map_filter (fetched_order srv) ids,
      warnings @ List.map_filter (fetch_warning srv) ids,
      requested @ ids)"
proof (induction ids arbitrary: all_orders warnings requested)
  case Nil
  then show ?case by (simp add: List.map_filter_simps)
next
  case (Cons oid ids)
  show ?case
  proof (cases "fst (shipstation_get (srv oid))")
    case (Inl e)
    then show ?thesis
      by (simp add: Cons List.map_filter_simps fetched_order_def fetch_warning_def)
  next
    case (Inr ord)
    then show ?thesis
      by (simp add: Cons List.map_filter_simps fetched_order_def fetch_warning_def)
  qed
qed

lemma shipments_loop_upto:
  assumes ok: "\<And>p. 1 \<le> p \<Longrightarrow> p \<le> n \<Longrightarrow> fst (shipstation_get (srv p)) = Inr (data p)"
    and more: "\<And>p. 1 \<le> p \<Longrightarrow> p < n \<Longrightarrow> int p < get_or (pages (data p)) 1"
    and last: "get_or (pages (data n)) 1 \<le> int n"
  shows "1 \<le> p \<Longrightarrow> p \<le> n \<Longrightarrow>
         shipments_loop srv p acc req =
           Some (Inr (acc @ concat (map (\<lambda>q. page_items (data q)) [p ..< Suc n])),
                 req @ [p ..< Suc n])"
proof (induction "n - p" arbitrary: p acc req)
  case 0
  then have "p = n" by simp
  then show ?case
    using ok[of n] last 0 by (subst shipments_loop.simps) (simp add: page_items_def)
next
  case (Suc d)
  then have lt: "p < n" by simp
  have step: "shipments_loop srv (p + 1) (acc @ page_items (data p)) (req @ [p])
        = Some (Inr ((acc @ page_items (data p))
                      @ concat (map (\<lambda>q. page_items (data q)) [p + 1 ..< Suc n])),
                (req @ [p]) @ [p + 1 ..< Suc n])"
    using Suc by (intro Suc(1)) simp_all
  have "[p ..< Suc n] = p # [p + 1 ..< Suc n]"
    using lt by (simp add: upt_conv_Cons)
  then show ?case
    using ok[of p] more[of p] Suc(3) lt step
    by (subst shipments_loop.simps) (simp add: page_items_def)
qed

lemma shipstation_get_first_ok:
  "srv 0 = Response st h (Some j) \<Longrightarrow> st \<noteq> 429 \<Longrightarrow> \<not> (400 \<le> st \<and> st < 600) \<Longrightarrow>
   shipstation_get srv = (Inr j, 1, [])"
  by (simp add: shipstation_get_def upt_rec)

lemma shipstation_get_first_error:
  "srv 0 = Response st h b \<Longrightarrow> st \<noteq> 429 \<Longrightarrow> 400 \<le> st \<and> st < 600 \<Longrightarrow>
   shipstation_get srv = (Inl (HTTPError st), 1, [])"
  by (simp add: shipstation_get_def upt_rec)

text \<open>
  Claim C7. The page loop stops at the first page whose number has reached the page count
  that page reports, whatever the pages hold: when the pages 1 to \<open>n\<close> are fetched, each
  page before \<open>n\<close> reports a count above its own number and page \<open>n\<close> reports a count of
  at most \<open>n\<close>, the loop requests exactly the pages 1 to \<open>n\<close>, in order, and returns their
  shipments. For a reported count of 3 these are the pages 1, 2, 3.
\<close>

theorem shipments_loop_stops_at_page_count:
  assumes "1 \<le> n"
    and "\<And>p. 1 \<le> p \<Longrightarrow> p \<le> n \<Longrightarrow> fst (shipstation_get (srv p)) = Inr (data p)"
    and "\<And>p. 1 \<le> p \<Longrightarrow> p < n \<Longrightarrow> int p < get_or (pages (data p)) 1"
    and "get_or (pages (data n)) 1 \<le> int n"
  shows "shipments_loop srv 1 [] [] =
           Some (Inr (concat (map (\<lambda>q. page_items (data q)) [1 ..< Suc n])), [1 ..< Suc n])"
  using shipments_loop_upto[of n srv data 1 "[]" "[]"] assms by simp

theorem shipments_loop_stops_at_page_count_witness:
  "shipments_loop three_pages 1 [] [] =
     Some (Inr [\<lparr>orderId = Some 11\<rparr>, \<lparr>orderId = Some 12\<rparr>, \<lparr>orderId = Some 11\<rparr>], [1, 2, 3])
   \<and> shipments_loop three_pages_empty_last 1 [] [] =
     Some (Inr [\<lparr>orderId = Some 11\<rparr>, \<lparr>orderId = Some 12\<rparr>, \<lparr>orderId = Some 13\<rparr>], [1, 2, 3])"
proof -
  have l: "[Suc 0 ..< 4] = [Suc 0, 2, 3]"
    by (simp add: upt_rec)
  have a: "shipments_loop three_pages 1 [] [] =
     Some (Inr [\<lparr>orderId = Some 11\<rparr>, \<lparr>orderId = Some 12\<rparr>, \<lparr>orderId = Some 11\<rparr>], [1, 2, 3])"
    using shipments_loop_stops_at_page_count [of 3 three_pages three_pages_data]
    by (simp add: l shipstation_get_first_ok three_pages_def three_pages_data_def page_items_def)
  have b: "shipments_loop three_pages_empty_last 1 [] [] =
     Some (Inr [\<lparr>orderId = Some 11\<rparr>, \<lparr>orderId = Some 12\<rparr>, \<lparr>orderId = Some 13\<rparr>], [1, 2, 3])"
    using shipments_loop_stops_at_page_count
      [of 3 three_pages_empty_last three_pages_empty_last_data]
    by (simp add: l shipstation_get_first_ok three_pages_empty_last_def
          three_pages_empty_last_data_def page_items_def)
  show ?thesis using a b by simp
qed

text \<open>
  Claim C8. The loop over the order IDs requests every ID, in order, whatever the earlier
  requests gave: an ID whose fetch fails adds one warning (the ID and the error) and no
  order, an ID whose fetch succeeds adds its order, and the loop goes on to the next ID.
  \<open>get_shipped_orders\<close> returns the orders so fetched.
\<close>

theorem fetch_orders_skips_failed_order_only:
  "fetch_orders srv ids [] [] [] =
     (List.map_filter (fetched_order srv) ids, List.map_filter (fetch_warning srv) ids, ids)
   \<and> (shipments_loop psrv 1 [] [] = Some (Inr all_shipments, requested)
        \<and> all_shipments \<noteq> [] \<longrightarrow>
      get_shipped_orders psrv srv =
        Some (Inr (List.map_filter (fetched_order srv) (order_ids_of all_shipments))))"
  by (simp add: fetch_orders_acc get_shipped_orders_def)

theorem fetch_orders_skips_failed_order_only_witness:
  "fetch_orders one_order_fails [11, 12, 13] [] [] [] =
     ([order_numbered 12, order_numbered 13], [(11, HTTPError 500)], [11, 12, 13])
   \<and> get_shipped_orders three_pages one_order_fails = Some (Inr [order_numbered 12])"
proof -
  have f: "fetched_order one_order_fails 11 = None"
    "fetched_order one_order_fails 12 = Some (order_numbered 12)"
    "fetched_order one_order_fails 13 = Some (order_numbered 13)"
    "fetch_warning one_order_fails 11 = Some (11, HTTPError 500)"
    "fetch_warning one_order_fails 12 = None"
    "fetch_warning one_order_fails 13 = None"
    by (simp_all add: fetched_order_def fetch_warning_def one_order_fails_def
          shipstation_get_first_ok shipstation_get_first_error)
  have pages: "shipments_loop three_pages 1 [] [] =
     Some (Inr [\<lparr>orderId = Some 11\<rparr>, \<lparr>orderId = Some 12\<rparr>, \<lparr>orderId = Some 11\<rparr>], [1, 2, 3])"
    by code_simp
  then have pages': "shipments_loop three_pages (Suc 0) [] [] =
     Some (Inr [\<lparr>orderId = Some 11\<rparr>, \<lparr>orderId = Some 12\<rparr>, \<lparr>orderId = Some 11\<rparr>],
           [Suc 0, 2, 3])"
    by simp
  have ids: "order_ids_of [\<lparr>orderId = Some 11\<rparr>, \<lparr>orderId = Some 12\<rparr>, \<lparr>orderId = Some 11\<rparr>]
             = [12, 11]"
    by (simp add: order_ids_of_def)
  have a: "fetch_orders one_order_fails [11, 12, 13] [] [] [] =
     ([order_numbered 12, order_numbered 13], [(11, HTTPError 500)], [11, 12, 13])"
    using fetch_orders_skips_failed_order_only [of one_order_fails "[11, 12, 13]"]
    by (simp add: f List.map_filter_simps)
  have b: "get_shipped_orders three_pages one_order_fails = Some (Inr [order_numbered 12])"
    using fetch_orders_skips_failed_order_only
      [of one_order_fails _ three_pages
          "[\<lparr>orderId = Some 11\<rparr>, \<lparr>orderId = Some 12\<rparr>, \<lparr>orderId = Some 11\<rparr>]" "[1, 2, 3]"]
    by (simp add: pages' ids f List.map_filter_simps)
  show ?thesis using a b by simp
qed

section \<open>The payloads and the session of a run\<close>

lemma payloads_append: "payloads (a @ b) = payloads a @ payloads b"
  by (simp add: payloads_def List.map_filter_def)

lemma payloads_Nil: "payloads [] = []"
  by (simp add: payloads_def List.map_filter_def)

lemma payloads_Cons: "payloads (e # es) = (case payload_of e of None \<Rightarrow> payloads es | Some t \<Rightarrow> t # payloads es)"
  by (simp add: payloads_def List.map_filter_def split: option.splits)

lemma extract_fields_sim: "gpx_sim_provider (fst (extract_fields s t)) = []"
  by (simp add: extract_fields_def no_data_def Let_def split: option.splits prod.splits)

lemma extract_fields_payloads: "payloads (snd (extract_fields s t)) = []"
  by (simp add: extract_fields_def Let_def payloads_Cons payloads_Nil split: option.splits prod.splits)

lemma lookup_serial_sim: "lookup_serial sf s = (Some r, evs) \<Longrightarrow> gpx_sim_provider r = []"
proof (cases sf)
  case (Settled t)
  assume "lookup_serial sf s = (Some r, evs)"
  then have "r = fst (extract_fields s t)"
    using Settled by (auto split: prod.splits)
  then show ?thesis by (simp add: extract_fields_sim)
next
  case Broken
  assume "lookup_serial sf s = (Some r, evs)"
  then show ?thesis using Broken by (auto simp: no_data_def)
next
  case Crashed
  assume "lookup_serial sf s = (Some r, evs)"
  then show ?thesis using Crashed by simp
qed

lemma lookup_serial_payloads: "payloads (snd (lookup_serial sf s)) = []"
proof (cases sf)
  case (Settled t)
  then show ?thesis
    using extract_fields_payloads[of s t]
    by (cases "extract_fields s t") (simp add: payloads_Cons)
qed (simp_all add: payloads_Cons payloads_Nil)

lemma lookup_loop_payloads:
  "lookup_loop c k refs recs tr = (ok, recs', tr') \<Longrightarrow> payloads tr' = payloads tr"
proof (induction refs arbitrary: k recs tr)
  case Nil
  then show ?case by simp
next
  case (Cons i refs)
  obtain res evs where l: "lookup_serial (surface_of c k (serial (recs ! i))) (serial (recs ! i)) = (res, evs)"
    by (cases "lookup_serial (surface_of c k (serial (recs ! i))) (serial (recs ! i))")
  have p: "payloads evs = []"
    using lookup_serial_payloads[of "surface_of c k (serial (recs ! i))" "serial (recs ! i)"] l by simp
  show ?case
  proof (cases res)
    case None
    then show ?thesis using Cons.prems l p by (auto simp: payloads_append)
  next
    case (Some gd)
    then have "payloads tr' = payloads (tr @ evs)"
      using Cons.prems l by (intro Cons.IH) simp
    then show ?thesis using p by (simp add: payloads_append)
  qed
qed

lemma lookup_loop_sim:
  "\<forall>r \<in> set recs. sim_provider r = [] \<Longrightarrow> lookup_loop c k refs recs tr = (ok, recs', tr') \<Longrightarrow>
   \<forall>r \<in> set recs'. sim_provider r = []"
proof (induction refs arbitrary: k recs tr)
  case Nil
  then show ?case by simp
next
  case (Cons i refs)
  obtain res evs where l: "lookup_serial (surface_of c k (serial (recs ! i))) (serial (recs ! i)) = (res, evs)"
    by (cases "lookup_serial (surface_of c k (serial (recs ! i))) (serial (recs ! i))")
  show ?case
  proof (cases res)
    case None
    then show ?thesis using Cons.prems l by auto
  next
    case (Some gd)
    let ?recs = "recs[i := (recs ! i)\<lparr>imei := gpx_imei gd, iccid := gpx_iccid gd,
                     sim_provider := gpx_sim_provider gd, retailer := ''shopify''\<rparr>]"
    have "gpx_sim_provider gd = []" using l Some lookup_serial_sim by blast
    then have "\<forall>r \<in> set ?recs. sim_provider r = []"
      using Cons.prems(1) set_update_subset_insert[of recs i] by fastforce
    moreover have "lookup_loop c (Suc k) refs ?recs (tr @ evs) = (ok, recs', tr')"
      using Cons.prems(2) l Some by simp
    ultimately show ?thesis by (rule Cons.IH)
  qed
qed

lemma enrich_payloads: "payloads (snd (snd (enrich_with_gpx c recs))) = []"
proof -
  obtain ok recs' tr' where l: "lookup_loop c 0 (to_lookup_of recs) recs [SessionStart] = (ok, recs', tr')"
    by (cases "lookup_loop c 0 (to_lookup_of recs) recs [SessionStart]")
  then have "payloads tr' = payloads [SessionStart]" by (rule lookup_loop_payloads)
  then show ?thesis using l
    by (cases ok) (simp_all add: enrich_with_gpx_def payloads_Cons payloads_Nil payloads_append)
qed

lemma enrich_sim:
  assumes "\<forall>r \<in> set recs. sim_provider r = []"
  shows "\<forall>r \<in> set (fst (enrich_with_gpx c recs)). sim_provider r = []"
proof -
  obtain ok recs' tr' where l: "lookup_loop c 0 (to_lookup_of recs) recs [SessionStart] = (ok, recs', tr')"
    by (cases "lookup_loop c 0 (to_lookup_of recs) recs [SessionStart]")
  then have "\<forall>r \<in> set recs'. sim_provider r = []"
    using assms lookup_loop_sim by blast
  then show ?thesis using l assms
    by (cases ok) (simp_all add: enrich_with_gpx_def)
qed

lemma order_records_sim: "r \<in> set (order_records ord) \<Longrightarrow> sim_provider r = []"
  by (auto simp: order_records_def Let_def sentinel_record_def serial_record_def split: if_splits)

lemma parse_orders_sim: "\<forall>r \<in> set (parse_orders orders). sim_provider r = []"
  by (auto simp: parse_orders_def parse_orders_loop_concat order_records_sim)

lemma run_records_payloads:
  "t \<in> set (payloads (snd (run_records w dry recs0))) \<Longrightarrow>
   t = SHEET_HEADERS # map sheet_row (fst (enrich_with_gpx (gpx w) recs0))"
proof -
  obtain recs sc tr where e: "enrich_with_gpx (gpx w) recs0 = (recs, sc, tr)"
    by (cases "enrich_with_gpx (gpx w) recs0")
  then have p: "payloads tr = []" using enrich_payloads[of "gpx w" recs0] by simp
  assume "t \<in> set (payloads (snd (run_records w dry recs0)))"
  then show ?thesis
    using e p
    by (auto simp: run_records_def payloads_append payloads_Cons payloads_Nil close_if_def
          run_rows_def create_and_populate_sheet_rows_def split: if_splits)
qed

lemma run_payloads:
  assumes "run w dry = Some (out, trace)" and "t \<in> set (payloads trace)"
  shows "\<exists>orders. t = SHEET_HEADERS # map sheet_row (fst (enrich_with_gpx (gpx w) (parse_orders orders)))"
proof -
  from assms(1) have "trace = [] \<or> (\<exists>orders. run_records w dry (parse_orders orders) = (out, trace))"
    by (auto simp: run_def split: option.splits sum.splits if_splits prod.splits)
  moreover have "trace \<noteq> []" using assms(2) by (auto simp: payloads_Nil)
  ultimately obtain orders where "run_records w dry (parse_orders orders) = (out, trace)"
    by blast
  then have "trace = snd (run_records w dry (parse_orders orders))"
    by simp
  then have "t \<in> set (payloads (snd (run_records w dry (parse_orders orders))))"
    using assms(2) by simp
  then show ?thesis using run_records_payloads by blast
qed

lemma sheet_rows_sku:
  "map sheet_row (map (\<lambda>r. r\<lparr>sku := f r\<rparr>) records) = map sheet_row records"
  by (simp add: sheet_row_def)

lemma sheet_row_blank:
  "row \<in> set (map sheet_row records) \<Longrightarrow>
   length row = 9 \<and> row ! 0 = [] \<and> row ! 1 = [] \<and> row ! 5 = []"
  by (auto simp: sheet_row_def)

text \<open>
  Claim C9. In the table \<open>run\<close> writes and in the one \<open>create_and_populate_sheet\<close> writes,
  the first row is the header, the first cell of which is \<open>SKU\<close>, and every data row has
  nine cells of which the first, the second and the sixth are empty; neither table
  depends on the \<open>sku\<close> of any record. So it is for every table a run writes to the
  temporary file, uploads to Drive or uploads to the console.
\<close>

theorem payload_sku_columns_blank:
  "hd (run_rows records) = SHEET_HEADERS
   \<and> hd (create_and_populate_sheet_rows records) = SHEET_HEADERS
   \<and> SHEET_HEADERS ! 0 = ''SKU''
   \<and> (\<forall>row \<in> set (tl (run_rows records)).
         length row = 9 \<and> row ! 0 = [] \<and> row ! 1 = [] \<and> row ! 5 = [])
   \<and> (\<forall>row \<in> set (tl (create_and_populate_sheet_rows records)).
         length row = 9 \<and> row ! 0 = [] \<and> row ! 1 = [] \<and> row ! 5 = [])
   \<and> run_rows (map (\<lambda>r. r\<lparr>sku := f r\<rparr>) records) = run_rows records
   \<and> create_and_populate_sheet_rows (map (\<lambda>r. r\<lparr>sku := f r\<rparr>) records)
       = create_and_populate_sheet_rows records
   \<and> (run w dry_run = Some (out, trace) \<longrightarrow>
        (\<forall>t \<in> set (payloads trace). \<forall>row \<in> set (tl t).
           length row = 9 \<and> row ! 0 = [] \<and> row ! 1 = [] \<and> row ! 5 = []))"
proof -
  have a: "\<forall>row \<in> set (tl (run_rows records)).
         length row = 9 \<and> row ! 0 = [] \<and> row ! 1 = [] \<and> row ! 5 = []"
    using sheet_row_blank by (simp add: run_rows_def)
  have b: "\<forall>row \<in> set (tl (create_and_populate_sheet_rows records)).
         length row = 9 \<and> row ! 0 = [] \<and> row ! 1 = [] \<and> row ! 5 = []"
    using sheet_row_blank by (simp add: create_and_populate_sheet_rows_def)
  have c: "run w dry_run = Some (out, trace) \<longrightarrow>
        (\<forall>t \<in> set (payloads trace). \<forall>row \<in> set (tl t).
           length row = 9 \<and> row ! 0 = [] \<and> row ! 1 = [] \<and> row ! 5 = [])"
  proof (intro impI ballI)
    fix t row
    assume r: "run w dry_run = Some (out, trace)" and t: "t \<in> set (payloads trace)"
      and row: "row \<in> set (tl t)"
    obtain orders where
      "t = SHEET_HEADERS # map sheet_row (fst (enrich_with_gpx (gpx w) (parse_orders orders)))"
      using run_payloads[OF r t] by blast
    then have "row \<in> set (map sheet_row (fst (enrich_with_gpx (gpx w) (parse_orders orders))))"
      using row by simp
    then show "length row = 9 \<and> row ! 0 = [] \<and> row ! 1 = [] \<and> row ! 5 = []"
      by (rule sheet_row_blank)
  qed
  have d: "SHEET_HEADERS ! 0 = ''SKU''" by (simp add: SHEET_HEADERS_def)
  have e: "run_rows (map (\<lambda>r. r\<lparr>sku := f r\<rparr>) records) = run_rows records"
    unfolding run_rows_def by (simp only: sheet_rows_sku)
  have g: "create_and_populate_sheet_rows (map (\<lambda>r. r\<lparr>sku := f r\<rparr>) records)
       = create_and_populate_sheet_rows records"
    unfolding create_and_populate_sheet_rows_def by (simp only: sheet_rows_sku)
  have h: "hd (run_rows records) = SHEET_HEADERS"
    "hd (create_and_populate_sheet_rows records) = SHEET_HEADERS"
    by (simp_all add: run_rows_def create_and_populate_sheet_rows_def)
  show ?thesis
    using a b c d e g h by (intro conjI)
qed

text \<open>
  Claim C10. Whatever a lookup meets, the data it returns has an empty \<open>sim_provider\<close>;
  after \<open>enrich_with_gpx\<close> every record parsed from the orders has an empty
  \<open>sim_provider\<close>; and in every table of every run the cell under \<open>SIM Provider\<close> (the
  seventh) is empty in every data row.
\<close>

theorem sim_provider_never_filled:
  "(\<forall>r. fst (lookup_serial sf serial_no) = Some r \<longrightarrow> gpx_sim_provider r = [])
   \<and> (\<forall>r \<in> set (fst (enrich_with_gpx c (parse_orders orders))). sim_provider r = [])
   \<and> SHEET_HEADERS ! 6 = ''SIM Provider''
   \<and> (run w dry_run = Some (out, trace) \<longrightarrow>
        (\<forall>t \<in> set (payloads trace). \<forall>row \<in> set (tl t). row ! 6 = []))"
proof -
  have a: "\<forall>r. fst (lookup_serial sf serial_no) = Some r \<longrightarrow> gpx_sim_provider r = []"
    using lookup_serial_sim[of sf serial_no] by (cases "lookup_serial sf serial_no") auto
  have b: "\<forall>r \<in> set (fst (enrich_with_gpx c (parse_orders orders))). sim_provider r = []" for c orders
    using parse_orders_sim by (rule enrich_sim)
  have c: "run w dry_run = Some (out, trace) \<longrightarrow>
        (\<forall>t \<in> set (payloads trace). \<forall>row \<in> set (tl t). row ! 6 = [])"
  proof (intro impI ballI)
    fix t row
    assume r: "run w dry_run = Some (out, trace)" and t: "t \<in> set (payloads trace)"
      and row: "row \<in> set (tl t)"
    obtain os where
      "t = SHEET_HEADERS # map sheet_row (fst (enrich_with_gpx (gpx w) (parse_orders os)))"
      using run_payloads[OF r t] by blast
    then obtain rec where "rec \<in> set (fst (enrich_with_gpx (gpx w) (parse_orders os)))"
      "row = sheet_row rec"
      using row by auto
    then show "row ! 6 = []" using b[of "gpx w" os] by (simp add: sheet_row_def)
  qed
  have d: "SHEET_HEADERS ! 6 = ''SIM Provider''" by (simp add: SHEET_HEADERS_def)
  show ?thesis using a b c d by simp
qed

lemma all_fine_run: "run all_fine False = Some (Returned, all_fine_trace)"
  by code_simp

lemma all_fine_payloads: "payloads all_fine_trace = [enriched_rows, enriched_rows, enriched_rows]"
  by code_simp

theorem payload_sku_columns_blank_witness:
  "map sku (parse_orders [order_two_serials]) = [''A'', ''B'']
   \<and> length (tl (run_rows (parse_orders [order_two_serials]))) = 2
   \<and> list_all (\<lambda>row. row ! 0 = [] \<and> row ! 1 = [] \<and> row ! 5 = [])
        (tl (run_rows (parse_orders [order_two_serials])))
   \<and> run all_fine False = Some (Returned, all_fine_trace)
   \<and> payloads all_fine_trace = [enriched_rows, enriched_rows, enriched_rows]
   \<and> list_all (\<lambda>row. row ! 0 = [] \<and> row ! 1 = [] \<and> row ! 5 = []) (tl enriched_rows)"
proof -
  have s: "map sku (parse_orders [order_two_serials]) = [''A'', ''B'']"
    by code_simp
  then have n: "length (tl (run_rows (parse_orders [order_two_serials]))) = 2"
    using length_map[of sku "parse_orders [order_two_serials]"] by (simp add: run_rows_def)
  have "list_all (\<lambda>row. row ! 0 = [] \<and> row ! 1 = [] \<and> row ! 5 = [])
        (tl (run_rows (parse_orders [order_two_serials])))
        \<and> list_all (\<lambda>row. row ! 0 = [] \<and> row ! 1 = [] \<and> row ! 5 = []) (tl enriched_rows)"
    using payload_sku_columns_blank
      [of "parse_orders [order_two_serials]" _ all_fine False Returned all_fine_trace]
    by (simp add: list_all_iff all_fine_run all_fine_payloads)
  then show ?thesis using s n all_fine_run all_fine_payloads by simp
qed

theorem sim_provider_never_filled_witness:
  "fst (lookup_serial (Settled device_page) ''263384'')
     = Some \<lparr>gpx_imei = ''862601768000477'', gpx_iccid = ''8901176000000000001'',
             gpx_sim_provider = []\<rparr>
   \<and> length (fst (enrich_with_gpx (gpx all_fine) (parse_orders [order_two_serials]))) = 2
   \<and> list_all (\<lambda>r. sim_provider r = [])
        (fst (enrich_with_gpx (gpx all_fine) (parse_orders [order_two_serials])))
   \<and> run all_fine False = Some (Returned, all_fine_trace)
   \<and> payloads all_fine_trace = [enriched_rows, enriched_rows, enriched_rows]
   \<and> list_all (\<lambda>row. row ! 6 = []) (tl enriched_rows)"
proof -
  have l: "fst (lookup_serial (Settled device_page) ''263384'')
     = Some \<lparr>gpx_imei = ''862601768000477'', gpx_iccid = ''8901176000000000001'',
             gpx_sim_provider = []\<rparr>"
    by code_simp
  have n: "length (fst (enrich_with_gpx (gpx all_fine) (parse_orders [order_two_serials]))) = 2"
    by code_simp
  have "list_all (\<lambda>r. sim_provider r = [])
        (fst (enrich_with_gpx (gpx all_fine) (parse_orders [order_two_serials])))
        \<and> list_all (\<lambda>row. row ! 6 = []) (tl enriched_rows)"
    using sim_provider_never_filled
      [of "Settled device_page" "''263384''" "gpx all_fine" "[order_two_serials]"
          all_fine False Returned all_fine_trace]
    by (simp add: list_all_iff all_fine_run all_fine_payloads)
  then show ?thesis using l n all_fine_run all_fine_payloads by simp
qed

lemma order_records_nonempty: "order_records ord \<noteq> []"
proof -
  have "length (enumerate 0 xs) = length xs" for xs :: "string list"
    by simp
  then have "xs \<noteq> [] \<Longrightarrow> enumerate 0 xs \<noteq> []" for xs :: "string list"
    by (metis length_0_conv)
  then show ?thesis by (simp add: order_records_def Let_def)
qed

lemma parse_orders_nonempty: "orders \<noteq> [] \<Longrightarrow> parse_orders orders \<noteq> []"
  by (cases orders) (simp_all add: parse_orders_def parse_orders_loop_concat order_records_nonempty)

lemma enrich_login_fails:
  "\<not> login_ok c \<Longrightarrow>
   enrich_with_gpx c recs =
     (recs, False, if to_lookup_of recs = [] then [] else [SessionStart, SessionClose])"
  by (simp add: enrich_with_gpx_def)

text \<open>
  Claim C4, amended. When \<open>start()\<close> fails, \<open>enrich_with_gpx\<close> catches the exception, closes
  the scraper and returns the records as they were, with no scraper. So no serial is
  searched, nothing is uploaded to the console, the session is closed as often as it was
  started, and every table of the run holds the records as parsed. The run does not
  abort: in a live run it goes on to upload that table to Drive and returns, in a dry run
  it copies the file and returns (when those steps go through).
\<close>

theorem run_goes_on_when_login_fails:
  assumes "\<not> login_ok (gpx w)"
    and "get_shipped_orders (page_srv w) (order_srv w) = Some (Inr orders)"
    and "orders \<noteq> []"
  shows "\<exists>out trace. run w dry_run = Some (out, trace)
      \<and> (\<forall>s. Search s \<notin> set trace) \<and> (\<forall>t. GpxUpload t \<notin> set trace)
      \<and> count_list trace SessionClose = count_list trace SessionStart
      \<and> (\<forall>t \<in> set (payloads trace). t = SHEET_HEADERS # map sheet_row (parse_orders orders))
      \<and> (tempfile_ok w \<and> \<not> dry_run \<and> drive_ok w \<longrightarrow>
           out = Returned
           \<and> DriveUpload (create_and_populate_sheet_rows (parse_orders orders)) \<in> set trace)
      \<and> (tempfile_ok w \<and> dry_run \<and> copy_ok w \<longrightarrow> out = Returned \<and> CopyLocal \<in> set trace)"
proof -
  have ne: "parse_orders orders \<noteq> []" using assms(3) by (rule parse_orders_nonempty)
  have r: "run w dry_run = Some (run_records w dry_run (parse_orders orders))"
    using assms(2,3) ne by (simp add: run_def)
  have e: "enrich_with_gpx (gpx w) (parse_orders orders) =
     (parse_orders orders, False,
      if to_lookup_of (parse_orders orders) = [] then [] else [SessionStart, SessionClose])"
    using assms(1) by (rule enrich_login_fails)
  show ?thesis
    unfolding r
    by (auto simp: run_records_def e close_if_def payloads_Cons payloads_Nil payloads_append
          run_rows_def create_and_populate_sheet_rows_def)
qed

theorem run_goes_on_when_login_fails_witness:
  "\<not> login_ok (gpx login_fails)
   \<and> get_shipped_orders (page_srv login_fails) (order_srv login_fails)
       = Some (Inr [order_numbered 12])
   \<and> (\<exists>out trace. run login_fails False = Some (out, trace) \<and> out = Returned
         \<and> DriveUpload (create_and_populate_sheet_rows (parse_orders [order_numbered 12]))
             \<in> set trace
         \<and> (\<forall>s. Search s \<notin> set trace))"
proof -
  have a: "\<not> login_ok (gpx login_fails)"
    by (simp add: login_fails_def)
  have b: "get_shipped_orders (page_srv login_fails) (order_srv login_fails)
       = Some (Inr [order_numbered 12])"
    by code_simp
  have c: "tempfile_ok login_fails" "drive_ok login_fails"
    by (simp_all add: login_fails_def)
  show ?thesis
    using run_goes_on_when_login_fails [OF a b, of False] a b c by auto
qed

text \<open>
  The claim as it is written says that the run aborts and that what depends on the lookups
  does not execute. In the world \<open>login_fails\<close> the login is refused, and the live run
  returns normally after it has written the table of the records without IMEI and ICCID
  and uploaded it to Drive.
\<close>

theorem run_aborts_when_login_fails_counterexample:
  "\<not> login_ok (gpx login_fails)
   \<and> run login_fails False =
       Some (Returned, [SessionStart, SessionClose, WriteTempCsv plain_rows,
                        DriveUpload plain_rows, Unlink])"
  by code_simp

text \<open>
  Claim C5. The live branch closes the scraper in a \<open>finally\<close>; the dry-run branch closes
  it only after \<open>shutil.copy\<close> has returned, and the statements that write the temporary
  file stand before the \<open>try\<close>. In the world \<open>copy_fails\<close> the dry run opens the session,
  looks the serial up and leaves with the error of the copy, the session never closed; so
  it is in a live run when the temporary file cannot be written. A dry run in which the
  copy goes through closes the session once.
\<close>

theorem run_dry_run_copy_failure_leaves_session_open:
  "run copy_fails True =
     Some (Raised CopyError, [SessionStart, Search ''263384'', WriteTempCsv enriched_rows])
   \<and> run (all_fine\<lparr>tempfile_ok := False\<rparr>) False =
     Some (Raised TempFileError, [SessionStart, Search ''263384''])
   \<and> run all_fine True =
     Some (Returned, [SessionStart, Search ''263384'', WriteTempCsv enriched_rows, CopyLocal,
                      SessionClose, Unlink])"
  by code_simp

section \<open>The matcher and the meaning of a pattern\<close>
















section \<open>The two tiers of the lookup\<close>





















end
